theory Spec2Isabelle
  imports Complex_Main "HOL-Library.Word" "HOL-Library.Sublist"
begin

section \<open>The microphone stream (class MicrophoneStream of client.py)\<close>

text \<open>
  An audio buffer is a byte string. The queue \<open>_buff\<close> holds the buffers that the
  audio callback \<open>_fill_buffer\<close> enqueues and the value \<open>None\<close> that
  \<open>__exit__\<close> enqueues as the end marker.
\<close>

type_synonym bytes = "8 word list"

datatype item = Chunk bytes | Sentinel

text \<open>
  The queue is filled by another thread while \<open>generator\<close> reads it. What the reader
  meets at its successive \<open>get\<close> calls is written as a trace:
  \<^item> \<open>Put x\<close>: the item \<open>x\<close> is in the queue when the reader asks for it;
  \<^item> \<open>Idle\<close>: the queue is empty at that moment. \<open>get(block=False)\<close> raises
    \<open>queue.Empty\<close> there; the blocking \<open>get()\<close> waits for the next \<open>Put\<close>.
  After the end of the trace nothing is ever enqueued again: \<open>get(block=False)\<close> raises
  \<open>queue.Empty\<close> and the blocking \<open>get()\<close> never returns.
\<close>

datatype event = Put item | Idle

text \<open>The fields of \<open>self\<close> set by \<open>__init__\<close> and \<open>__enter__\<close>.\<close>

record MicrophoneStream =
  rate :: int
  chunk :: int
  closed :: bool
  start_time :: "real option"

definition RATE :: int where
  "RATE = 16000"

definition CHUNK :: int where
  "CHUNK = RATE div 10"

definition STREAM_DURATION_LIMIT :: real where
  "STREAM_DURATION_LIMIT = 300"

text \<open>\<open>__init__\<close>: the stream starts closed, with no start time.\<close>

definition init :: "int \<Rightarrow> int \<Rightarrow> MicrophoneStream" where
  "init r c = \<lparr>rate = r, chunk = c, closed = True, start_time = None\<rparr>"

text \<open>\<open>__enter__\<close> at clock reading \<open>now\<close> (the opening of the audio device is not modelled).\<close>

definition enter :: "real \<Rightarrow> MicrophoneStream \<Rightarrow> MicrophoneStream" where
  "enter now s = s\<lparr>start_time := Some now, closed := False\<rparr>"

datatype exn =
    TypeError
  | UnboundLocalError
  | UnicodeDecodeError
  | RequestException string

text \<open>\<open>self._buff.get()\<close>: the next item, after waiting as long as the queue is empty.\<close>

fun get_blocking :: "event list \<Rightarrow> (item \<times> event list) option" where
  "get_blocking [] = None"
| "get_blocking (Idle # q) = get_blocking q"
| "get_blocking (Put x # q) = Some (x, q)"

text \<open>
  The inner \<open>while True\<close> loop of \<open>generator\<close> (lines 66 to 73). \<open>None\<close> is the
  \<open>return\<close> of line 70, which leaves the generator; \<open>Some (data, q)\<close> is the
  \<open>break\<close> of line 73 with the list \<open>data\<close> collected so far.
\<close>

fun drain :: "bytes list \<Rightarrow> event list \<Rightarrow> (bytes list \<times> event list) option" where
  "drain data [] = Some (data, [])"
| "drain data (Idle # q) = Some (data, q)"
| "drain data (Put Sentinel # q) = None"
| "drain data (Put (Chunk c) # q) = drain (data @ [c]) q"

text \<open>
  How a run of the generator ends: \<open>Returned\<close> when the generator function returns
  (the consumer sees the end of the sequence), \<open>Blocked\<close> when the blocking \<open>get()\<close>
  waits for ever, \<open>Raised e\<close> when an exception leaves the generator.
\<close>

datatype ending = Returned | Blocked | Raised exn

lemma get_blocking_shorter:
  "get_blocking q = Some (x, q') \<Longrightarrow> length q' < length q"
  by (induction q arbitrary: x q' rule: get_blocking.induct) auto

lemma drain_not_longer:
  "drain data q = Some (data', q') \<Longrightarrow> length q' \<le> length q"
  by (induction data q arbitrary: data' q' rule: drain.induct) auto

text \<open>
  Python floats are IEEE 754 binary64 numbers. A float is written as the real number it
  stands for, and the result of an operation is the exact result rounded to the nearest
  float, to the one with the even significand when two are equally near. Around \<open>x\<close>
  with \<open>2 ^ k \<le> \<bar>x\<bar> < 2 ^ (k + 1)\<close> the floats are the multiples of
  \<open>2 ^ (k - 52)\<close>, and the multiples of \<open>2 ^ (- 1074)\<close> near zero. Overflow to
  infinity is left out: clock readings and their differences are far from it.
\<close>

definition round_half_even :: "real \<Rightarrow> int" where
  "round_half_even r =
     (let f = \<lfloor>r\<rfloor> in
      if r - of_int f < 1 / 2 then f
      else if 1 / 2 < r - of_int f then f + 1
      else if even f then f else f + 1)"

definition double_round :: "real \<Rightarrow> real" where
  "double_round x =
     (if x = 0 then 0
      else (let e = max (\<lfloor>log 2 \<bar>x\<bar>\<rfloor> - 52) (- 1074)
            in of_int (round_half_even (x / 2 powr of_int e)) * 2 powr of_int e))"

text \<open>The subtraction of two floats, as in \<open>time.time() - self.start_time\<close>.\<close>

definition float_sub :: "real \<Rightarrow> real \<Rightarrow> real" where
  "float_sub a b = double_round (a - b)"

text \<open>
  \<open>generator\<close>, run to its end: the list of the chunks it yields and how it ends.
  \<open>self k\<close> holds the fields of the stream object as they are read at the top of
  iteration \<open>k\<close> of the outer loop, and \<open>clock k\<close> is what \<open>time.time()\<close> returns
  there. \<open>sub\<close> is the subtraction that line 58 applies to the two floats; in Python
  it is \<open>float_sub\<close>. \<open>b"".join(data)\<close> is \<open>concat data\<close>.
\<close>

function generator ::
  "(real \<Rightarrow> real \<Rightarrow> real) \<Rightarrow> (nat \<Rightarrow> MicrophoneStream) \<Rightarrow> (nat \<Rightarrow> real) \<Rightarrow> nat
     \<Rightarrow> event list \<Rightarrow> bytes list \<times> ending"
where
  "generator sub self clock k q =
     (if closed (self k) then ([], Returned)
      else (case start_time (self k) of
        None \<Rightarrow> ([], Raised TypeError)
      | Some t0 \<Rightarrow>
          (if sub (clock k) t0 > STREAM_DURATION_LIMIT then ([], Returned)
           else (case get_blocking q of
             None \<Rightarrow> ([], Blocked)
           | Some (Sentinel, q') \<Rightarrow> ([], Returned)
           | Some (Chunk c, q') \<Rightarrow>
               (case drain [c] q' of
                  None \<Rightarrow> ([], Returned)
                | Some (data, q'') \<Rightarrow>
                    (case generator sub self clock (Suc k) q'' of
                       (ys, e) \<Rightarrow> (concat data # ys, e)))))))"
  by pat_completeness auto
termination
proof (relation "measure (\<lambda>(sub, self, clock, k, q). length q)")
  show "wf (measure (\<lambda>(sub, self, clock, k, q). length q))"
    by simp
next
  fix sub :: "real \<Rightarrow> real \<Rightarrow> real"
    and self :: "nat \<Rightarrow> MicrophoneStream" and clock :: "nat \<Rightarrow> real"
    and k :: nat and q :: "event list" and t0 :: real
    and x :: "item \<times> event list" and it :: item and q' :: "event list"
    and c :: bytes and y :: "bytes list \<times> event list"
    and data :: "bytes list" and q'' :: "event list"
  assume "get_blocking q = Some x" "(it, q') = x" "it = Chunk c"
    "drain [c] q' = Some y" "(data, q'') = y"
  then have "length q' < length q" "length q'' \<le> length q'"
    using get_blocking_shorter [of q it q'] drain_not_longer [of "[c]" q' data q'']
    by auto
  then show "((sub, self, clock, Suc k, q''), (sub, self, clock, k, q))
      \<in> measure (\<lambda>(sub, self, clock, k, q). length q)"
    by simp
qed

declare generator.simps [simp del]

text \<open>The items put on the queue, in the order in which they were put.\<close>

fun enqueued :: "event list \<Rightarrow> item list" where
  "enqueued [] = []"
| "enqueued (Idle # q) = enqueued q"
| "enqueued (Put x # q) = x # enqueued q"

text \<open>
  Whether the end marker is taken from the queue by the non-blocking \<open>get\<close> of the
  inner loop (line 68) rather than by the blocking \<open>get\<close> of line 61, for a reader that
  the time limit does not stop. The flag says whether the reader is in the inner loop.
\<close>

fun sentinel_in_drain :: "bool \<Rightarrow> event list \<Rightarrow> bool" where
  "sentinel_in_drain d [] = False"
| "sentinel_in_drain d (Idle # q) = sentinel_in_drain False q"
| "sentinel_in_drain d (Put (Chunk c) # q) = sentinel_in_drain True q"
| "sentinel_in_drain d (Put Sentinel # q) = d"

text \<open>
  A stream entered at time 0, or at time \<open>t\<close>, whose fields no other thread changes,
  and a clock that reads \<open>t\<close> at every iteration.
\<close>

definition entered_stream :: "nat \<Rightarrow> MicrophoneStream" where
  "entered_stream k = enter 0 (init RATE CHUNK)"

definition entered_at :: "real \<Rightarrow> nat \<Rightarrow> MicrophoneStream" where
  "entered_at t k = enter t (init RATE CHUNK)"

definition clock_at :: "real \<Rightarrow> nat \<Rightarrow> real" where
  "clock_at t k = t"

section \<open>The backend relay (send_text_to_backend)\<close>

text \<open>
  What the program does to the outside world, in order: writes and flushes of
  \<open>sys.stdout\<close>, calls of \<open>print\<close> (with the line printed, the newline left out),
  the call \<open>requests.post(url, headers, json)\<close> with the dictionaries as association
  lists, and the opening and closing of the audio device by the \<open>with\<close> block.
\<close>

datatype effect =
    Stdout_write string
  | Stdout_flush
  | Print string
  | Http_post string "(string \<times> string) list" "(string \<times> string) list"
  | Mic_open
  | Mic_close

text \<open>
  A chunk handed out by \<open>response.iter_content\<close>: an empty byte string (skipped by
  \<open>if chunk\<close>), bytes that \<open>decode('utf-8')\<close> turns into the given text, or bytes on
  which \<open>decode\<close> raises \<open>UnicodeDecodeError\<close>.
\<close>

datatype body_chunk = Empty_chunk | Decoded string | Undecodable

text \<open>
  What the network does with one POST:
  \<^item> \<open>Post_raises m\<close>: \<open>requests.post\<close> raises a \<open>RequestException\<close> whose text is \<open>m\<close>
    (a transport error);
  \<^item> \<open>Bad_status m\<close>: a response arrives and \<open>raise_for_status\<close> raises \<open>HTTPError\<close>,
    a \<open>RequestException\<close>, with text \<open>m\<close>;
  \<^item> \<open>Streams cs fin\<close>: the status is good and the body arrives as the chunks \<open>cs\<close>;
    then the body ends (\<open>None\<close>) or \<open>iter_content\<close> raises a \<open>RequestException\<close>
    with text \<open>m\<close> (\<open>Some m\<close>).
\<close>

datatype post_outcome =
    Post_raises string
  | Bad_status string
  | Streams "body_chunk list" "string option"

definition CR :: string where
  "CR = [CHR 0x0D]"

definition LF :: string where
  "LF = [CHR 0x0A]"

text \<open>The \<open>for chunk in response.iter_content(...)\<close> loop, from \<open>current_text\<close>.\<close>

fun iter_content :: "string \<Rightarrow> body_chunk list \<Rightarrow> string option \<Rightarrow> effect list \<times> exn option" where
  "iter_content current_text [] None = ([], None)"
| "iter_content current_text [] (Some m) = ([], Some (RequestException m))"
| "iter_content current_text (Empty_chunk # cs) fin = iter_content current_text cs fin"
| "iter_content current_text (Undecodable # cs) fin = ([], Some UnicodeDecodeError)"
| "iter_content current_text (Decoded decoded_chunk # cs) fin =
     (case iter_content (current_text @ decoded_chunk) cs fin of
        (es, x) \<Rightarrow>
          (Stdout_flush # Stdout_write (CR @ current_text @ decoded_chunk) # es, x))"

definition api_url :: string where
  "api_url = ''http://localhost:8000/api/v1/interviews/1/start''"

definition headers :: "(string \<times> string) list" where
  "headers = [(''Content-Type'', ''application/json'')]"

text \<open>The body of the \<open>try\<close> block (lines 84 to 100).\<close>

definition try_send :: "post_outcome \<Rightarrow> string \<Rightarrow> effect list \<times> exn option" where
  "try_send outcome transcript =
     (let payload = [(''Question'', transcript)] in
      if transcript \<noteq> [] then
        (case (case outcome of
                 Post_raises m \<Rightarrow> ([], Some (RequestException m))
               | Bad_status m \<Rightarrow> ([], Some (RequestException m))
               | Streams cs fin \<Rightarrow> iter_content [] cs fin) of
           (es, x) \<Rightarrow>
             (Print (''Sending text to backend: '' @ '' '' @ transcript)
                # Http_post api_url headers payload # es, x))
      else ([], None))"

text \<open>
  \<open>send_text_to_backend\<close>: the \<open>try\<close> block under its handler, which catches
  \<open>requests.RequestException\<close> and nothing else. \<open>outcome\<close> is what the network does
  with the POST of this call, if the call makes one.
\<close>

definition send_text_to_backend :: "post_outcome \<Rightarrow> string \<Rightarrow> effect list \<times> exn option" where
  "send_text_to_backend outcome transcript =
     (case try_send outcome transcript of
        (es, Some (RequestException m)) \<Rightarrow>
          (es @ [Print (''Error sending request to backend: '' @ m)], None)
      | (es, x) \<Rightarrow> (es, x))"

section \<open>The stop phrase\<close>

text \<open>
  The pattern \<open>\b(exit|quit)\b\<close> under \<open>re.I\<close>, on a \<open>str\<close>. The characters of a
  transcript are the code points below 256 here, one 8-bit character each. On a
  \<open>str\<close> the word characters \<open>\w\<close> are the alphanumeric characters of Unicode and
  the underscore; below 256 these are the ASCII letters and digits, the underscore, the
  letters of Latin-1 (all of 192 to 255 but the signs 215 and 247, and 170, 181, 186),
  the superscript digits 178, 179, 185 and the fractions 188 to 190. Ignoring case, a
  letter of this pattern matches itself and its ASCII capital, and no other character
  below 256.
\<close>

definition is_word_char :: "char \<Rightarrow> bool" where
  "is_word_char c =
     (let n = (of_char c :: nat) in
      (48 \<le> n \<and> n \<le> 57) \<or> (65 \<le> n \<and> n \<le> 90) \<or> n = 95 \<or> (97 \<le> n \<and> n \<le> 122)
      \<or> n = 170 \<or> n = 178 \<or> n = 179 \<or> n = 181 \<or> n = 185 \<or> n = 186
      \<or> (188 \<le> n \<and> n \<le> 190) \<or> (192 \<le> n \<and> n \<le> 214)
      \<or> (216 \<le> n \<and> n \<le> 246) \<or> (248 \<le> n \<and> n \<le> 255))"

definition ascii_lower :: "char \<Rightarrow> char" where
  "ascii_lower c =
     (let n = (of_char c :: nat) in if 65 \<le> n \<and> n \<le> 90 then char_of (n + 32) else c)"

text \<open>\<open>\b\<close> at the place between the text \<open>left\<close> and the text \<open>right\<close>.\<close>

definition at_boundary :: "string \<Rightarrow> string \<Rightarrow> bool" where
  "at_boundary left right =
     ((left \<noteq> [] \<and> is_word_char (last left)) \<noteq> (right \<noteq> [] \<and> is_word_char (hd right)))"

datatype atom = Word_boundary | Group "string list"

text \<open>
  The literal \<open>s\<close> read at the head of \<open>right\<close>, ignoring case (the literals of
  the pattern are ASCII letters).
\<close>

definition literal_here :: "string \<Rightarrow> string \<Rightarrow> bool" where
  "literal_here s right =
     (length s \<le> length right
      \<and> map ascii_lower (take (length s) right) = map ascii_lower s)"

text \<open>
  The atoms of a pattern matched one after the other from the place between \<open>left\<close>
  and \<open>right\<close>; a group tries its alternatives from left to right.
\<close>

fun match_atoms :: "atom list \<Rightarrow> string \<Rightarrow> string \<Rightarrow> bool"
  and match_group :: "string list \<Rightarrow> atom list \<Rightarrow> string \<Rightarrow> string \<Rightarrow> bool"
where
  "match_atoms [] left right = True"
| "match_atoms (Word_boundary # ps) left right =
     (at_boundary left right \<and> match_atoms ps left right)"
| "match_atoms (Group alts # ps) left right = match_group alts ps left right"
| "match_group [] ps left right = False"
| "match_group (s # alts) ps left right =
     ((literal_here s right
         \<and> match_atoms ps (left @ take (length s) right) (drop (length s) right))
      \<or> match_group alts ps left right)"

text \<open>\<open>re.search\<close>: the pattern is tried at every place of the text, from the left.\<close>

fun search_from :: "atom list \<Rightarrow> string \<Rightarrow> string \<Rightarrow> bool" where
  "search_from ps left [] = match_atoms ps left []"
| "search_from ps left (c # cs) =
     (match_atoms ps left (c # cs) \<or> search_from ps (left @ [c]) cs)"

definition exit_pattern :: "atom list" where
  "exit_pattern = [Word_boundary, Group [''exit'', ''quit''], Word_boundary]"

definition exit_phrase :: "string \<Rightarrow> bool" where
  "exit_phrase transcript = search_from exit_pattern [] transcript"

section \<open>The transcript dispatcher (listen_print_loop)\<close>

datatype alternative = Alternative (transcript: string)

datatype result = Result (alternatives: "alternative list") (is_final: bool)

datatype response = Response (results: "result list")

text \<open>Python's \<open>s * n\<close> on a string: empty when \<open>n\<close> is zero or negative.\<close>

definition str_mul :: "string \<Rightarrow> int \<Rightarrow> string" where
  "str_mul s n = concat (replicate (nat n) s)"

text \<open>
  The \<open>for\<close> loop of \<open>listen_print_loop\<close> with its local variables: \<open>n\<close> counts the
  calls of \<open>send_text_to_backend\<close> made so far, and \<open>net n\<close> is what the network does
  with the POST of call \<open>n\<close>; \<open>bound\<close> is the value of the variable \<open>transcript\<close>,
  \<open>None\<close> as long as it is unbound. The result is the value returned, or the exception that leaves the function.
\<close>

fun response_loop ::
  "(nat \<Rightarrow> post_outcome) \<Rightarrow> nat \<Rightarrow> int \<Rightarrow> string option \<Rightarrow> response list
     \<Rightarrow> effect list \<times> (exn + string)"
where
  "response_loop net n num_chars_printed bound [] =
     ([], (case bound of None \<Rightarrow> Inl UnboundLocalError | Some t \<Rightarrow> Inr t))"
| "response_loop net n num_chars_printed bound (response # rest) =
     (case results response of
        [] \<Rightarrow> response_loop net n num_chars_printed bound rest
      | result # _ \<Rightarrow>
          (case alternatives result of
             [] \<Rightarrow> response_loop net n num_chars_printed bound rest
           | alt # _ \<Rightarrow>
               (let t = alternative.transcript alt;
                    overwrite_chars = str_mul '' '' (num_chars_printed - int (length t))
                in
                if \<not> is_final result then
                  (case response_loop net n (int (length t)) (Some t) rest of
                     (es, r) \<Rightarrow>
                       (Stdout_write (t @ overwrite_chars @ CR) # Stdout_flush # es, r))
                else
                  (case send_text_to_backend (net n) t of
                     (bs, Some e) \<Rightarrow>
                       (Stdout_write (t @ overwrite_chars @ LF) # Stdout_flush # bs, Inl e)
                   | (bs, None) \<Rightarrow>
                       (if exit_phrase t then
                          (Stdout_write (t @ overwrite_chars @ LF) # Stdout_flush # bs
                             @ [Print ''Exiting..''], Inr t)
                        else
                          (case response_loop net (Suc n) 0 (Some t) rest of
                             (es, r) \<Rightarrow>
                               (Stdout_write (t @ overwrite_chars @ LF) # Stdout_flush # bs
                                  @ es, r)))))))"

definition listen_print_loop ::
  "(nat \<Rightarrow> post_outcome) \<Rightarrow> response list \<Rightarrow> effect list \<times> (exn + string)"
where
  "listen_print_loop net responses = response_loop net 0 0 None responses"

section \<open>The session driver (main)\<close>

text \<open>
  The \<open>while True\<close> loop of \<open>main\<close> has no \<open>break\<close> and no \<open>return\<close>: it is left by
  an exception only. \<open>io k\<close> is what session \<open>k\<close> meets: the responses of the
  recognizer and the behaviour of the network. The fuel bounds the number of sessions
  run: the result \<open>None\<close> says that the process is still running when the fuel is spent,
  \<open>Some e\<close> that the exception \<open>e\<close> has ended it. The \<open>with\<close> block closes the stream
  on both ways out.
\<close>

fun main ::
  "nat \<Rightarrow> (nat \<Rightarrow> response list \<times> (nat \<Rightarrow> post_outcome)) \<Rightarrow> nat \<Rightarrow> effect list \<times> exn option"
where
  "main 0 io k = ([], None)"
| "main (Suc fuel) io k =
     (case listen_print_loop (snd (io k)) (fst (io k)) of
        (es, Inl e) \<Rightarrow> (Mic_open # es @ [Mic_close], Some e)
      | (es, Inr t) \<Rightarrow>
          (case main fuel io (Suc k) of
             (es', r) \<Rightarrow> (Mic_open # es @ Mic_close # es', r)))"

section \<open>Notions used to state the properties\<close>

text \<open>The effects that are HTTP requests.\<close>

fun is_post :: "effect \<Rightarrow> bool" where
  "is_post (Http_post url hs payload) = True"
| "is_post e = False"

text \<open>
  What the loop takes from a response: the transcript of the first alternative of the
  first result, or nothing when lines 111 to 116 skip the response; and whether the loop
  handles the response as a final one.
\<close>

definition read_transcript :: "response \<Rightarrow> string option" where
  "read_transcript r =
     (case results r of
        [] \<Rightarrow> None
      | res # _ \<Rightarrow>
          (case alternatives res of [] \<Rightarrow> None | alt # _ \<Rightarrow> Some (transcript alt)))"

definition skipped :: "response \<Rightarrow> bool" where
  "skipped r = (case results r of [] \<Rightarrow> True | res # _ \<Rightarrow> alternatives res = [])"

definition dispatched_final :: "response \<Rightarrow> bool" where
  "dispatched_final r =
     (case results r of
        [] \<Rightarrow> False
      | res # _ \<Rightarrow> alternatives res \<noteq> [] \<and> is_final res)"

text \<open>All the results that a sequence of responses carries, at any index.\<close>

definition all_results :: "response list \<Rightarrow> result list" where
  "all_results rs = concat (map results rs)"

text \<open>The transcripts that the loop reads from a sequence of responses, in order.\<close>

definition seen :: "response list \<Rightarrow> string list" where
  "seen rs = List.map_filter read_transcript rs"

text \<open>
  A response at which the loop breaks, and the responses that the loop consumes: all of
  them up to the first one at which it breaks.
\<close>

definition exits :: "response \<Rightarrow> bool" where
  "exits r =
     (dispatched_final r
      \<and> (case read_transcript r of None \<Rightarrow> False | Some t \<Rightarrow> exit_phrase t))"

fun consumed :: "response list \<Rightarrow> response list" where
  "consumed [] = []"
| "consumed (r # rs) = (if exits r then [r] else r # consumed rs)"

text \<open>
  The stop phrase in the words of the specification: a transcript contains the whole
  word exit or quit, in any case. The words of a text are its longest runs of word
  characters; \<open>runs\<close> cuts the text at every other character.
\<close>

fun runs :: "string \<Rightarrow> string list" where
  "runs [] = [[]]"
| "runs (c # cs) =
     (if is_word_char c then (case runs cs of [] \<Rightarrow> [[c]] | w # ws \<Rightarrow> (c # w) # ws)
      else [] # runs cs)"

definition spec_whole_words :: "string \<Rightarrow> string list" where
  "spec_whole_words t = filter (\<lambda>w. w \<noteq> []) (runs t)"

definition spec_contains_stop_word :: "string \<Rightarrow> bool" where
  "spec_contains_stop_word t =
     (''exit'' \<in> set (map (map ascii_lower) (spec_whole_words t))
      \<or> ''quit'' \<in> set (map (map ascii_lower) (spec_whole_words t)))"

definition stop_word :: "string \<Rightarrow> bool" where
  "stop_word w = (map ascii_lower w = ''exit'' \<or> map ascii_lower w = ''quit'')"

text \<open>
  Networks and sessions for the examples: a backend that answers every POST with the
  text \<open>s\<close>, a backend whose answers are not UTF-8, a backend that refuses every
  connection, and a driver that meets the same responses and the same network in every
  session.
\<close>

definition backend_says :: "string \<Rightarrow> nat \<Rightarrow> post_outcome" where
  "backend_says s n = Streams [Decoded s] None"

definition backend_garbled :: "nat \<Rightarrow> post_outcome" where
  "backend_garbled n = Streams [Undecodable] None"

definition backend_down :: "string \<Rightarrow> nat \<Rightarrow> post_outcome" where
  "backend_down m n = Post_raises m"

definition same_session ::
  "response list \<Rightarrow> (nat \<Rightarrow> post_outcome) \<Rightarrow> nat \<Rightarrow> response list \<times> (nat \<Rightarrow> post_outcome)"
where
  "same_session rs net k = (rs, net)"

section \<open>Properties of the chunk sequence\<close>

lemma double_round_binade:
  assumes "2 ^ n \<le> x" and "x < 2 * 2 ^ n" and "n \<le> 52"
  shows "double_round x = of_int (round_half_even (x * 2 ^ (52 - n))) / 2 ^ (52 - n)"
proof -
  have pos: "0 < x"
    using assms(1) by (smt (verit) zero_less_power)
  have "(2::real) powr of_int (int n) \<le> x \<and> x < 2 powr (of_int (int n) + 1)"
    using assms(1,2) by (simp add: powr_realpow powr_add)
  then have fl: "\<lfloor>log 2 x\<rfloor> = int n"
    using pos by (simp add: floor_log_eq_powr_iff)
  have e: "max (\<lfloor>log 2 \<bar>x\<bar>\<rfloor> - 52) (- 1074) = - int (52 - n)"
    using fl pos assms(3) by simp
  have p: "(2::real) powr of_int (- int (52 - n)) = 1 / 2 ^ (52 - n)"
    by (simp add: powr_minus powr_realpow field_simps)
  show ?thesis
    using pos unfolding double_round_def Let_def e p by (simp add: field_simps)
qed

lemma float_sub_1_0: "float_sub 1 0 = 1"
  using double_round_binade [of 0 1] by (simp add: float_sub_def round_half_even_def)

lemma float_sub_301_0: "float_sub 301 0 = 301"
  using double_round_binade [of 8 301] by (simp add: float_sub_def round_half_even_def)

lemma float_sub_near_limit:
  "float_sub (2639707515964621 / 8796093022208) (3602879701896397 / 36028797018963968) = 300"
proof -
  have "float_sub (2639707515964621 / 8796093022208) (3602879701896397 / 36028797018963968)
      = double_round (10808639105689191219 / 36028797018963968)"
    by (simp add: float_sub_def)
  also have "\<dots> = of_int (round_half_even
      (10808639105689191219 / 36028797018963968 * 2 ^ (52 - 8))) / 2 ^ (52 - 8)"
    by (rule double_round_binade) simp_all
  also have "\<dots> = 300"
    by (simp add: round_half_even_def Let_def)
  finally show ?thesis .
qed

lemma get_blocking_enqueued:
  "get_blocking q = Some (x, q') \<Longrightarrow> enqueued q = x # enqueued q'"
  by (induction q rule: get_blocking.induct) auto

lemma get_blocking_None_enqueued:
  "get_blocking q = None \<Longrightarrow> enqueued q = []"
  by (induction q rule: get_blocking.induct) auto

lemma drain_Some_enqueued:
  "drain data q = Some (data', q') \<Longrightarrow>
     \<exists>cs. data' = data @ cs \<and> enqueued q = map Chunk cs @ enqueued q'"
proof (induction data q rule: drain.induct)
  case (4 data c q)
  then obtain cs where "data' = (data @ [c]) @ cs" "enqueued q = map Chunk cs @ enqueued q'"
    by auto
  then have "data' = data @ (c # cs)
      \<and> enqueued (Put (Chunk c) # q) = map Chunk (c # cs) @ enqueued q'"
    by simp
  then show ?case by blast
qed auto

lemma get_blocking_in_drain:
  "get_blocking q = Some (Chunk c, q') \<Longrightarrow>
     sentinel_in_drain False q = sentinel_in_drain True q'"
  by (induction q rule: get_blocking.induct) auto

lemma drain_Some_in_drain:
  "drain data q = Some (data', q') \<Longrightarrow>
     sentinel_in_drain True q = sentinel_in_drain False q'"
  by (induction data q rule: drain.induct) auto

lemma drain_None_in_drain:
  "drain data q = None \<Longrightarrow> sentinel_in_drain True q"
  by (induction data q rule: drain.induct) auto

lemma map_Chunk_split:
  assumes "map Chunk bs @ [Sentinel] = map Chunk cs @ r"
  shows "\<exists>bs'. bs = cs @ bs' \<and> r = map Chunk bs' @ [Sentinel]"
  using assms
proof (induction cs arbitrary: bs)
  case Nil
  then show ?case by simp
next
  case (Cons c cs)
  then show ?case by (cases bs) auto
qed

lemma generator_groups:
  assumes "enqueued q = map Chunk bs @ [Sentinel]"
  shows "\<exists>gs. fst (generator sub self clock k q) = map concat gs \<and> [] \<notin> set gs
     \<and> prefix (concat gs) bs
     \<and> ((\<forall>j. \<not> closed (self j)
              \<and> (\<exists>t0. start_time (self j) = Some t0 \<and> sub (clock j) t0 \<le> 300))
          \<and> \<not> sentinel_in_drain False q
        \<longrightarrow> concat gs = bs \<and> snd (generator sub self clock k q) = Returned)"
proof -
  define ok where
    "ok \<longleftrightarrow> (\<forall>j. \<not> closed (self j)
        \<and> (\<exists>t0. start_time (self j) = Some t0 \<and> sub (clock j) t0 \<le> 300))"
  have "\<exists>gs. fst (generator sub self clock k q) = map concat gs \<and> [] \<notin> set gs
     \<and> prefix (concat gs) bs
     \<and> (ok \<and> \<not> sentinel_in_drain False q
        \<longrightarrow> concat gs = bs \<and> snd (generator sub self clock k q) = Returned)"
    using assms ok_def
  proof (induction sub self clock k q arbitrary: bs rule: generator.induct)
    case (1 sub self clock k q)
    have stop: ?case
      if "generator sub self clock k q = ([], e)"
        and "ok \<Longrightarrow> \<not> sentinel_in_drain False q \<Longrightarrow> bs = [] \<and> e = Returned" for e
      using that by (intro exI [of _ "[]"]) auto
    have okk: "\<not> closed (self k)
        \<and> (\<exists>t0. start_time (self k) = Some t0 \<and> sub (clock k) t0 \<le> 300)" if ok
      using that "1.prems"(2) by blast
    show ?case
    proof (cases "closed (self k)")
      case True
      then have "generator sub self clock k q = ([], Returned)" "\<not> ok"
        using okk by (auto simp: generator.simps [of sub self clock k q])
      then show ?thesis by (intro stop) auto
    next
      case running: False
      show ?thesis
      proof (cases "start_time (self k)")
        case None
        then have "generator sub self clock k q = ([], Raised TypeError)" "\<not> ok"
          using running okk by (auto simp: generator.simps [of sub self clock k q])
        then show ?thesis by (intro stop) auto
      next
        case st: (Some t0)
        show ?thesis
        proof (cases "sub (clock k) t0 > STREAM_DURATION_LIMIT")
          case True
          then have "generator sub self clock k q = ([], Returned)" "\<not> ok"
            using running st okk
            by (auto simp: generator.simps [of sub self clock k q] STREAM_DURATION_LIMIT_def)
          then show ?thesis by (intro stop) auto
        next
          case intime: False
          show ?thesis
          proof (cases "get_blocking q")
            case None
            then show ?thesis
              using "1.prems"(1) get_blocking_None_enqueued [of q] by simp
          next
            case (Some xq)
            obtain x q' where xq: "xq = (x, q')" by (cases xq)
            note gb = Some [unfolded xq]
            have enq: "enqueued q = x # enqueued q'"
              using gb by (rule get_blocking_enqueued)
            show ?thesis
            proof (cases x)
              case Sentinel
              then have g: "generator sub self clock k q = ([], Returned)"
                using running st intime gb by (simp add: generator.simps [of sub self clock k q])
              have "bs = []"
                using enq Sentinel "1.prems"(1) by (cases bs) auto
              then show ?thesis using g by (intro stop) auto
            next
              case (Chunk c)
              then obtain bs' where bs: "bs = c # bs'"
                and enq': "enqueued q' = map Chunk bs' @ [Sentinel]"
                using enq "1.prems"(1) by (cases bs) auto
              show ?thesis
              proof (cases "drain [c] q'")
                case None
                then have g: "generator sub self clock k q = ([], Returned)"
                  using running st intime gb Chunk
                  by (simp add: generator.simps [of sub self clock k q])
                have "sentinel_in_drain False q"
                  using get_blocking_in_drain [of q c q'] gb Chunk
                    drain_None_in_drain [OF None] by simp
                then show ?thesis using g by (intro stop) auto
              next
                case (Some dq)
                obtain data q'' where dq: "dq = (data, q'')" by (cases dq)
                note dr = Some [unfolded dq]
                obtain cs where data: "data = c # cs"
                  and enq'': "enqueued q' = map Chunk cs @ enqueued q''"
                  using drain_Some_enqueued [OF dr] by auto
                have "map Chunk bs' @ [Sentinel] = map Chunk cs @ enqueued q''"
                  using enq' enq'' by simp
                then obtain bs'' where bs': "bs' = cs @ bs''"
                  and e3: "enqueued q'' = map Chunk bs'' @ [Sentinel]"
                  using map_Chunk_split by blast
                have g: "generator sub self clock k q =
                    (concat data # fst (generator sub self clock (Suc k) q''),
                     snd (generator sub self clock (Suc k) q''))"
                  using running st intime gb Chunk dr
                  by (simp add: generator.simps [of sub self clock k q] split: prod.splits)
                have sd: "sentinel_in_drain False q = sentinel_in_drain False q''"
                  using get_blocking_in_drain [of q c q'] gb Chunk
                    drain_Some_in_drain [OF dr] by simp
                have "\<exists>gs. fst (generator sub self clock (Suc k) q'') = map concat gs
                    \<and> [] \<notin> set gs \<and> prefix (concat gs) bs''
                    \<and> (ok \<and> \<not> sentinel_in_drain False q''
                        \<longrightarrow> concat gs = bs''
                          \<and> snd (generator sub self clock (Suc k) q'') = Returned)"
                  using "1.IH" [OF running st intime gb [unfolded Chunk] refl refl dr refl
                      e3 "1.prems"(2)] .
                then obtain gs where gs:
                    "fst (generator sub self clock (Suc k) q'') = map concat gs"
                    "[] \<notin> set gs" "prefix (concat gs) bs''"
                    "ok \<and> \<not> sentinel_in_drain False q''
                        \<longrightarrow> concat gs = bs''
                          \<and> snd (generator sub self clock (Suc k) q'') = Returned"
                  by blast
                show ?thesis
                  using g gs sd data bs bs' by (intro exI [of _ "data # gs"]) auto
              qed
            qed
          qed
        qed
      qed
    qed
  qed
  then show ?thesis unfolding ok_def .
qed

lemma groups_not_longer:
  "[] \<notin> set gs \<Longrightarrow> length gs \<le> length (concat gs)"
proof (induction gs)
  case Nil
  then show ?case by simp
next
  case (Cons g gs)
  then have "g \<noteq> []" and "length gs \<le> length (concat gs)"
    by auto
  then show ?case by (cases g) auto
qed

lemma concat_groups:
  "concat (map concat gs) = concat (concat gs)"
  by (induction gs) auto

text \<open>
  C1, as the code has it. For N buffers put on the queue and then the end marker, the
  generator yields the buffers in their order, each chunk the concatenation of one or
  more buffers that follow each other, none of them twice: the chunks yielded are the
  concatenations of the groups \<open>gs\<close>, and the groups put end to end are the first
  buffers of the input. So there are at most N chunks, and their bytes are the first
  bytes of the input. The chunks are all of the input, and the generator returns, when
  no iteration finds the stream closed or past the time limit and the end marker is
  taken by the blocking \<open>get\<close>. The statement holds for every subtraction \<open>sub\<close>
  at line 58: for the subtraction of floats, and for the exact one, where the time limit
  is a bound on the exact differences of the clock readings.
\<close>

theorem generator_chunks_in_order:
  assumes "enqueued q = map Chunk bs @ [Sentinel]"
  shows "\<exists>gs. fst (generator sub self clock k q) = map concat gs \<and> [] \<notin> set gs
     \<and> prefix (concat gs) bs
     \<and> length (fst (generator sub self clock k q)) \<le> length bs
     \<and> prefix (concat (fst (generator sub self clock k q))) (concat bs)
     \<and> ((\<forall>j. \<not> closed (self j)
              \<and> (\<exists>t0. start_time (self j) = Some t0 \<and> sub (clock j) t0 \<le> 300))
          \<and> \<not> sentinel_in_drain False q
        \<longrightarrow> concat gs = bs
          \<and> concat (fst (generator sub self clock k q)) = concat bs
          \<and> snd (generator sub self clock k q) = Returned)"
proof -
  obtain gs where gs: "fst (generator sub self clock k q) = map concat gs" "[] \<notin> set gs"
      "prefix (concat gs) bs"
      "(\<forall>j. \<not> closed (self j)
              \<and> (\<exists>t0. start_time (self j) = Some t0 \<and> sub (clock j) t0 \<le> 300))
          \<and> \<not> sentinel_in_drain False q
        \<longrightarrow> concat gs = bs \<and> snd (generator sub self clock k q) = Returned"
    using generator_groups [OF assms, of sub self clock k] by blast
  obtain r where r: "bs = concat gs @ r"
    using gs(3) by (auto simp: prefix_def)
  have len: "length (fst (generator sub self clock k q)) \<le> length bs"
    using groups_not_longer [OF gs(2)] gs(1) r by simp
  have pre: "prefix (concat (fst (generator sub self clock k q))) (concat bs)"
    using gs(1) r by (simp add: concat_groups)
  have all: "concat gs = bs \<Longrightarrow> concat (fst (generator sub self clock k q)) = concat bs"
    using gs(1) by (simp add: concat_groups)
  show ?thesis
    using gs len pre all by (intro exI [of _ gs]) blast
qed

theorem generator_chunks_in_order_witness:
  "enqueued [Put (Chunk [1, 2]), Put (Chunk [3]), Idle, Put (Chunk [4]), Idle, Put Sentinel]
     = map Chunk [[1, 2], [3], [4]] @ [Sentinel]
   \<and> (\<exists>gs. fst (generator float_sub entered_stream (clock_at 1) 0
          [Put (Chunk [1, 2]), Put (Chunk [3]), Idle, Put (Chunk [4]), Idle, Put Sentinel])
          = map concat gs
        \<and> concat gs = [[1, 2], [3], [4]])
   \<and> concat (fst (generator float_sub entered_stream (clock_at 1) 0
          [Put (Chunk [1, 2]), Put (Chunk [3]), Idle, Put (Chunk [4]), Idle, Put Sentinel]))
        = concat [[1, 2], [3], [4]]
   \<and> snd (generator float_sub entered_stream (clock_at 1) 0
          [Put (Chunk [1, 2]), Put (Chunk [3]), Idle, Put (Chunk [4]), Idle, Put Sentinel])
        = Returned"
  using generator_chunks_in_order [where
      q = "[Put (Chunk [1, 2]), Put (Chunk [3]), Idle, Put (Chunk [4]), Idle, Put Sentinel]"
      and bs = "[[1, 2], [3], [4]]" and sub = float_sub and self = entered_stream
      and clock = "clock_at 1" and k = 0]
  by (auto simp: entered_stream_def clock_at_def enter_def init_def float_sub_1_0)

text \<open>
  The claim C1 as it is written fails when the end marker is already in the queue while
  the inner loop collects buffers: line 70 returns and the buffers collected in
  \<open>data\<close> are never yielded.
\<close>

theorem generator_drops_last_chunk:
  "enqueued [Put (Chunk [1, 2]), Put (Chunk [3]), Put Sentinel]
     = map Chunk [[1, 2], [3]] @ [Sentinel]
   \<and> generator float_sub entered_stream (clock_at 1) 0
        [Put (Chunk [1, 2]), Put (Chunk [3]), Put Sentinel] = ([], Returned)
   \<and> concat (fst (generator float_sub entered_stream (clock_at 1) 0
        [Put (Chunk [1, 2]), Put (Chunk [3]), Put Sentinel])) \<noteq> concat [[1, 2], [3]]"
  by (simp add: generator.simps entered_stream_def clock_at_def enter_def init_def
      STREAM_DURATION_LIMIT_def float_sub_1_0)

section \<open>The session time limit\<close>

text \<open>
  C3, as the code has it. The elapsed time that the generator compares with the limit
  is the difference of two floats that line 58 computes. When that difference exceeds
  300 seconds at the top of an iteration, the generator returns there: it yields nothing
  more, whatever the queue holds.
\<close>

theorem generator_timeout:
  assumes "start_time (self k) = Some t0"
    and "sub (clock k) t0 > 300"
  shows "generator sub self clock k q = ([], Returned)"
  using assms
  by (simp add: generator.simps [of sub self clock k q] STREAM_DURATION_LIMIT_def)

theorem generator_timeout_witness:
  "start_time (entered_stream 0) = Some 0
   \<and> float_sub (clock_at 301 0) 0 > 300
   \<and> generator float_sub entered_stream (clock_at 301) 0
        [Put (Chunk [1, 2]), Put (Chunk [3]), Idle, Put Sentinel] = ([], Returned)"
  using generator_timeout [where self = entered_stream and k = 0 and ?t0.0 = 0
      and sub = float_sub and clock = "clock_at 301"
      and q = "[Put (Chunk [1, 2]), Put (Chunk [3]), Idle, Put Sentinel]"]
  by (simp add: entered_stream_def clock_at_def enter_def init_def float_sub_301_0)

text \<open>
  The claim C3 as it is written, with the exact elapsed time, fails within the rounding
  of the subtraction. The stream is entered when the clock reads the float nearest to
  0.1, and the clock reads the float nearest to 300.1 at the pull. The exact difference
  of the two readings is more than 300, the float difference is 300, and the generator
  goes on and yields the buffer in the queue.
\<close>

theorem generator_goes_on_at_rounded_limit:
  "start_time (entered_at (3602879701896397 / 36028797018963968) 0)
     = Some (3602879701896397 / 36028797018963968)
   \<and> clock_at (2639707515964621 / 8796093022208) 0
        - 3602879701896397 / 36028797018963968 > 300
   \<and> generator float_sub (entered_at (3602879701896397 / 36028797018963968))
        (clock_at (2639707515964621 / 8796093022208)) 0
        [Put (Chunk [1, 2]), Idle, Put Sentinel] = ([[1, 2]], Returned)"
  by (simp add: generator.simps entered_at_def clock_at_def enter_def init_def
      STREAM_DURATION_LIMIT_def float_sub_near_limit)

section \<open>Properties of the backend relay\<close>

lemma char_eq_char_of:
  "(c = char_of (n :: nat)) = (take_bit 8 n = (of_char c :: nat))"
  using char_of_eq_iff [of n c] by auto

lemma iter_content_no_post:
  "iter_content cur cs fin = (es, x) \<Longrightarrow> filter is_post es = []"
  by (induction cur cs fin arbitrary: es x rule: iter_content.induct)
    (auto split: prod.splits)

lemma try_send_posts:
  "filter is_post (fst (try_send outcome t)) =
     (if t = [] then [] else [Http_post api_url headers [(''Question'', t)]])"
  by (auto simp: try_send_def iter_content_no_post split: prod.splits post_outcome.splits)

lemma send_posts:
  "filter is_post (fst (send_text_to_backend outcome t)) =
     (if t = [] then [] else [Http_post api_url headers [(''Question'', t)]])"
proof -
  have "filter is_post (fst (send_text_to_backend outcome t)) = filter is_post (fst (try_send outcome t))"
    by (auto simp: send_text_to_backend_def split: prod.splits option.splits exn.splits)
  then show ?thesis by (simp add: try_send_posts)
qed

text \<open>
  C7: the relay issues a POST exactly when the transcript is not empty. The requests
  among the effects of a call are the one POST with the body \<open>{"Question": t}\<close> when
  \<open>t\<close> is not empty, and none when it is; with the empty transcript the call does
  nothing at all.
\<close>

theorem relay_posts_iff_nonempty:
  "filter is_post (fst (send_text_to_backend outcome t)) =
     (if t = [] then [] else [Http_post api_url headers [(''Question'', t)]])
   \<and> (t = [] \<longrightarrow> send_text_to_backend outcome t = ([], None))"
  by (simp add: send_posts) (simp add: send_text_to_backend_def try_send_def)

theorem relay_posts_iff_nonempty_witness:
  "filter is_post (fst (send_text_to_backend (Post_raises ''refused'') [])) = []
   \<and> send_text_to_backend (Post_raises ''refused'') [] = ([], None)
   \<and> filter is_post (fst (send_text_to_backend (Post_raises ''refused'') ''hi''))
       = [Http_post api_url headers [(''Question'', ''hi'')]]"
  using relay_posts_iff_nonempty [of "Post_raises ''refused''" "[]"]
    relay_posts_iff_nonempty [of "Post_raises ''refused''" "''hi''"]
  by simp

section \<open>Properties of the dispatcher\<close>

lemma loop_skip:
  assumes "read_transcript r = None"
  shows "response_loop net n L b (r # rs) = response_loop net n L b rs"
  using assms by (auto simp: read_transcript_def split: list.splits)

lemma loop_interim:
  assumes "read_transcript r = Some t" and "\<not> dispatched_final r"
  shows "response_loop net n L b (r # rs) =
     (Stdout_write (t @ str_mul '' '' (L - int (length t)) @ CR) # Stdout_flush
        # fst (response_loop net n (int (length t)) (Some t) rs),
      snd (response_loop net n (int (length t)) (Some t) rs))"
  using assms
  by (auto simp: read_transcript_def dispatched_final_def Let_def split: list.splits prod.splits)

lemma loop_final:
  assumes "read_transcript r = Some t" and "dispatched_final r"
  shows "response_loop net n L b (r # rs) =
     (case snd (send_text_to_backend (net n) t) of
        Some e \<Rightarrow>
          (Stdout_write (t @ str_mul '' '' (L - int (length t)) @ LF) # Stdout_flush
             # fst (send_text_to_backend (net n) t), Inl e)
      | None \<Rightarrow>
          (if exit_phrase t then
             (Stdout_write (t @ str_mul '' '' (L - int (length t)) @ LF) # Stdout_flush
                # fst (send_text_to_backend (net n) t) @ [Print ''Exiting..''], Inr t)
           else
             (Stdout_write (t @ str_mul '' '' (L - int (length t)) @ LF) # Stdout_flush
                # fst (send_text_to_backend (net n) t)
                @ fst (response_loop net (Suc n) 0 (Some t) rs),
              snd (response_loop net (Suc n) 0 (Some t) rs))))"
  using assms
  by (auto simp: read_transcript_def dispatched_final_def Let_def
      split: list.splits prod.splits option.splits)

lemma read_transcript_shape:
  assumes "results r = res # others" and "alternatives res = alt # alts"
  shows "read_transcript r = Some (transcript alt)"
    and "dispatched_final r = is_final res"
  using assms by (simp_all add: read_transcript_def dispatched_final_def)

lemma skipped_loop:
  "list_all skipped rs \<Longrightarrow>
     response_loop net n L b rs = ([], (case b of None \<Rightarrow> Inl UnboundLocalError | Some t \<Rightarrow> Inr t))"
  by (induction rs) (auto simp: skipped_def split: list.splits)

text \<open>
  C10: when the sequence of responses is empty, or every response in it is skipped, the
  loop prints nothing and its \<open>return transcript\<close> raises \<open>UnboundLocalError\<close>:
  the function returns no value.
\<close>

theorem no_transcript_unbound:
  "list_all skipped rs \<Longrightarrow> listen_print_loop net rs = ([], Inl UnboundLocalError)"
  by (simp add: listen_print_loop_def skipped_loop)

theorem no_transcript_unbound_witness:
  "list_all skipped [Response [], Response [Result [] True]]
   \<and> listen_print_loop (backend_says ''ok'') [Response [], Response [Result [] True]] = ([], Inl UnboundLocalError)
   \<and> listen_print_loop (backend_says ''ok'') [] = ([], Inl UnboundLocalError)"
  using no_transcript_unbound [of "[Response [], Response [Result [] True]]" "backend_says ''ok''"]
    no_transcript_unbound [of "[]" "backend_says ''ok''"]
  by (simp add: skipped_def)



text \<open>
  C8: when the \<open>try\<close> block of the relay raises a \<open>RequestException\<close> (a transport
  error of \<open>requests.post\<close> or of the body stream, or the \<open>HTTPError\<close> of a bad
  status) for a final result, the relay logs it and returns normally, and the loop goes
  on with the same response: it checks the transcript for the stop phrase, and breaks
  with the exit notice or turns to the next response.
\<close>

theorem relay_failure_isolated:
  assumes "results r = res # others" and "alternatives res = alt # alts"
    and "is_final res" and "transcript alt = t"
    and "snd (try_send (net n) t) = Some (RequestException m)"
  shows "send_text_to_backend (net n) t
      = (fst (try_send (net n) t) @ [Print (''Error sending request to backend: '' @ m)], None)
    \<and> response_loop net n L b (r # rest)
      = (if exit_phrase t then
           (Stdout_write (t @ str_mul '' '' (L - int (length t)) @ LF) # Stdout_flush
              # fst (send_text_to_backend (net n) t) @ [Print ''Exiting..''], Inr t)
         else
           (Stdout_write (t @ str_mul '' '' (L - int (length t)) @ LF) # Stdout_flush
              # fst (send_text_to_backend (net n) t)
              @ fst (response_loop net (Suc n) 0 (Some t) rest),
            snd (response_loop net (Suc n) 0 (Some t) rest)))"
proof -
  have s: "send_text_to_backend (net n) t
      = (fst (try_send (net n) t) @ [Print (''Error sending request to backend: '' @ m)], None)"
    using assms(5) by (cases "try_send (net n) t") (simp add: send_text_to_backend_def)
  have "read_transcript r = Some t" "dispatched_final r"
    using read_transcript_shape [OF assms(1,2)] assms(3,4) by simp_all
  then show ?thesis
    using s by (simp add: loop_final del: response_loop.simps)
qed

theorem relay_failure_isolated_witness:
  "snd (try_send (backend_down ''refused'' 0) ''quit'') = Some (RequestException ''refused'')
   \<and> exit_phrase ''quit''
   \<and> response_loop (backend_down ''refused'') 0 0 None
        [Response [Result [Alternative ''quit''] True], Response []]
      = ([Stdout_write (''quit'' @ LF), Stdout_flush,
          Print ''Sending text to backend:  quit'',
          Http_post api_url headers [(''Question'', ''quit'')],
          Print ''Error sending request to backend: refused'',
          Print ''Exiting..''], Inr ''quit'')"
  using relay_failure_isolated [of "Response [Result [Alternative ''quit''] True]"
      "Result [Alternative ''quit''] True" "[]" "Alternative ''quit''" "[]" "''quit''"
      "backend_down ''refused''" 0 "''refused''" 0 None "[Response []]"]
  by (simp add: backend_down_def try_send_def str_mul_def exit_phrase_def exit_pattern_def
      literal_here_def at_boundary_def is_word_char_def ascii_lower_def char_of_eq_iff
      del: response_loop.simps)

lemma loop_quiet_no_post:
  "filter dispatched_final rs = [] \<Longrightarrow>
     filter is_post (fst (response_loop net n L b rs)) = []"
proof (induction rs arbitrary: L b)
  case Nil
  then show ?case by simp
next
  case (Cons r rs)
  then have nf: "\<not> dispatched_final r" and "filter dispatched_final rs = []"
    by (auto split: if_splits)
  then have IH: "filter is_post (fst (response_loop net n L' b' rs)) = []" for L' b'
    using Cons.IH by blast
  show ?case
  proof (cases "read_transcript r")
    case None
    then show ?thesis using IH by (simp add: loop_skip del: response_loop.simps)
  next
    case (Some t)
    then show ?thesis using IH nf by (simp add: loop_interim del: response_loop.simps)
  qed
qed

lemma loop_one_final:
  assumes "filter dispatched_final rs = [r]"
    and "read_transcript r = Some t" and "t \<noteq> []"
  shows "filter is_post (fst (response_loop net n L b rs))
      = [Http_post api_url headers [(''Question'', t)]]"
  using assms(1)
proof (induction rs arbitrary: L b)
  case Nil
  then show ?case by simp
next
  case (Cons r' rs)
  show ?case
  proof (cases "dispatched_final r'")
    case True
    then have r': "r' = r" and quiet: "filter dispatched_final rs = []"
      using Cons.prems by auto
    have posts: "filter is_post (fst (send_text_to_backend (net n) t))
        = [Http_post api_url headers [(''Question'', t)]]"
      using assms(3) by (simp add: send_posts)
    have nopost: "filter is_post (fst (response_loop net (Suc n) 0 (Some t) rs)) = []"
      using quiet by (rule loop_quiet_no_post)
    show ?thesis
      using True assms(2) posts nopost unfolding r'
      by (simp add: loop_final del: response_loop.simps split: option.splits)
  next
    case False
    then have "filter dispatched_final rs = [r]"
      using Cons.prems by simp
    then have IH: "filter is_post (fst (response_loop net n L' b' rs))
        = [Http_post api_url headers [(''Question'', t)]]" for L' b'
      by (rule Cons.IH)
    show ?thesis
    proof (cases "read_transcript r'")
      case None
      then show ?thesis using IH by (simp add: loop_skip del: response_loop.simps)
    next
      case (Some t')
      then show ?thesis using IH False by (simp add: loop_interim del: response_loop.simps)
    qed
  qed
qed

text \<open>
  C6, as the code has it. The loop looks at the first result of a response only. When
  exactly one response of the sequence has a final first result with an alternative, and
  the transcript \<open>t\<close> of its first alternative is not empty, the loop calls the relay
  once, and the requests among all its effects are the one POST with the body
  \<open>{"Question": t}\<close>.
\<close>

theorem one_final_one_post:
  assumes "filter dispatched_final rs = [r]"
    and "read_transcript r = Some t" and "t \<noteq> []"
  shows "filter is_post (fst (listen_print_loop net rs))
      = [Http_post api_url headers [(''Question'', t)]]"
  unfolding listen_print_loop_def using assms by (rule loop_one_final)

theorem one_final_one_post_witness:
  "filter dispatched_final
      [Response [Result [Alternative ''hello''] False],
       Response [Result [Alternative ''hello world''] True]]
     = [Response [Result [Alternative ''hello world''] True]]
   \<and> read_transcript (Response [Result [Alternative ''hello world''] True]) = Some ''hello world''
   \<and> filter is_post (fst (listen_print_loop (backend_says ''ok'')
        [Response [Result [Alternative ''hello''] False],
         Response [Result [Alternative ''hello world''] True]]))
     = [Http_post api_url headers [(''Question'', ''hello world'')]]"
  using one_final_one_post [of
      "[Response [Result [Alternative ''hello''] False],
        Response [Result [Alternative ''hello world''] True]]"
      "Response [Result [Alternative ''hello world''] True]" "''hello world''"
      "backend_says ''ok''"]
  by (simp add: dispatched_final_def read_transcript_def)

text \<open>
  The claim C6 as it is written fails for a sequence whose only final result is not the
  first result of its response: the loop never looks at it and nothing is posted.
\<close>

theorem final_behind_interim_not_relayed:
  "filter is_final (all_results
      [Response [Result [Alternative ''hello''] False,
                 Result [Alternative ''hello world''] True]])
     = [Result [Alternative ''hello world''] True]
   \<and> filter is_post (fst (listen_print_loop (backend_says ''ok'')
        [Response [Result [Alternative ''hello''] False,
                   Result [Alternative ''hello world''] True]])) = []"
  by (simp add: all_results_def listen_print_loop_def str_mul_def)

lemma seen_Cons:
  "seen (r # rs) = (case read_transcript r of None \<Rightarrow> seen rs | Some t \<Rightarrow> t # seen rs)"
  by (simp add: seen_def map_filter_simps split: option.splits)

lemma seen_Nil: "seen [] = []"
  by (simp add: seen_def map_filter_simps)

lemma loop_returns:
  "snd (response_loop net n L b rs) = Inr t \<Longrightarrow>
     (if seen (consumed rs) = [] then b = Some t else t = last (seen (consumed rs)))"
proof (induction rs arbitrary: n L b)
  case Nil
  then show ?case by (simp add: seen_Nil split: option.splits)
next
  case (Cons r rs)
  show ?case
  proof (cases "read_transcript r")
    case None
    then have "\<not> exits r" by (simp add: exits_def)
    then show ?thesis
      using None Cons.prems Cons.IH [of n L b]
      by (simp add: loop_skip seen_Cons del: response_loop.simps)
  next
    case (Some t')
    show ?thesis
    proof (cases "dispatched_final r")
      case False
      then have "\<not> exits r" by (simp add: exits_def)
      then show ?thesis
        using Some False Cons.prems Cons.IH [of n "int (length t')" "Some t'"]
        by (simp add: loop_interim seen_Cons del: response_loop.simps split: if_splits)
    next
      case True
      show ?thesis
      proof (cases "exit_phrase t'")
        case ex: True
        then have "exits r" using True Some by (simp add: exits_def)
        then show ?thesis
          using Some True ex Cons.prems
          by (simp add: loop_final seen_Cons seen_Nil del: response_loop.simps
              split: option.splits)
      next
        case nex: False
        then have "\<not> exits r" using Some by (simp add: exits_def)
        then show ?thesis
          using Some True nex Cons.prems Cons.IH [of "Suc n" 0 "Some t'"]
          by (simp add: loop_final seen_Cons del: response_loop.simps
              split: option.splits if_splits)
      qed
    qed
  qed
qed

lemma loop_no_final:
  "filter dispatched_final rs = [] \<Longrightarrow>
     snd (response_loop net n L b rs) =
       (if seen rs = [] then (case b of None \<Rightarrow> Inl UnboundLocalError | Some t \<Rightarrow> Inr t)
        else Inr (last (seen rs)))"
proof (induction rs arbitrary: L b)
  case Nil
  then show ?case by (simp add: seen_Nil)
next
  case (Cons r rs)
  then have nf: "\<not> dispatched_final r" and q: "filter dispatched_final rs = []"
    by (auto split: if_splits)
  show ?case
  proof (cases "read_transcript r")
    case None
    then show ?thesis
      using Cons.IH [OF q, of L b] by (simp add: loop_skip seen_Cons del: response_loop.simps)
  next
    case (Some t')
    then show ?thesis
      using nf Cons.IH [OF q, of "int (length t')" "Some t'"]
      by (simp add: loop_interim seen_Cons del: response_loop.simps)
  qed
qed

lemma relay_raises_decode_only:
  "snd (send_text_to_backend outcome t) = None
     \<or> snd (send_text_to_backend outcome t) = Some UnicodeDecodeError"
proof -
  have it: "snd (iter_content cur cs fin) = None
      \<or> snd (iter_content cur cs fin) = Some UnicodeDecodeError
      \<or> (\<exists>m. snd (iter_content cur cs fin) = Some (RequestException m))" for cur cs fin
    by (induction cur cs fin rule: iter_content.induct) (auto split: prod.splits)
  have "snd (try_send outcome t) = None
      \<or> snd (try_send outcome t) = Some UnicodeDecodeError
      \<or> (\<exists>m. snd (try_send outcome t) = Some (RequestException m))"
  proof (cases outcome)
    case (Streams cs fin)
    then show ?thesis
      using it [of "[]" cs fin] by (auto simp: try_send_def split: prod.splits)
  qed (auto simp: try_send_def)
  then show ?thesis
    by (cases "try_send outcome t") (auto simp: send_text_to_backend_def)
qed

lemma loop_total:
  assumes "\<forall>n t. snd (send_text_to_backend (net n) t) = None"
  shows "snd (response_loop net n L b rs) =
     (if seen (consumed rs) = [] then (case b of None \<Rightarrow> Inl UnboundLocalError | Some t \<Rightarrow> Inr t)
      else Inr (last (seen (consumed rs))))"
proof (induction rs arbitrary: n L b)
  case Nil
  show ?case by (simp add: seen_Nil)
next
  case (Cons r rs)
  show ?case
  proof (cases "read_transcript r")
    case None
    then have "\<not> exits r" by (simp add: exits_def)
    then show ?thesis
      using None Cons.IH [of n L b]
      by (simp add: loop_skip seen_Cons del: response_loop.simps)
  next
    case (Some t')
    show ?thesis
    proof (cases "dispatched_final r")
      case False
      then have "\<not> exits r" by (simp add: exits_def)
      then show ?thesis
        using Some False Cons.IH [of n "int (length t')" "Some t'"]
        by (simp add: loop_interim seen_Cons del: response_loop.simps)
    next
      case True
      have ok: "snd (send_text_to_backend (net n) t') = None"
        using assms by simp
      show ?thesis
      proof (cases "exit_phrase t'")
        case ex: True
        then have "exits r" using True Some by (simp add: exits_def)
        then show ?thesis
          using Some True ex ok
          by (simp add: loop_final seen_Cons seen_Nil del: response_loop.simps)
      next
        case nex: False
        then have "\<not> exits r" using Some by (simp add: exits_def)
        then show ?thesis
          using Some True nex ok Cons.IH [of "Suc n" 0 "Some t'"]
          by (simp add: loop_final seen_Cons del: response_loop.simps)
      qed
    qed
  qed
qed

lemma loop_result_cases:
  "snd (response_loop net n L b rs) = Inl UnicodeDecodeError
   \<or> snd (response_loop net n L b rs) =
     (if seen (consumed rs) = [] then (case b of None \<Rightarrow> Inl UnboundLocalError | Some t \<Rightarrow> Inr t)
      else Inr (last (seen (consumed rs))))"
proof (induction rs arbitrary: n L b)
  case Nil
  show ?case by (simp add: seen_Nil)
next
  case (Cons r rs)
  show ?case
  proof (cases "read_transcript r")
    case None
    then have "\<not> exits r" by (simp add: exits_def)
    then show ?thesis
      using None Cons.IH [of n L b]
      by (auto simp add: loop_skip seen_Cons simp del: response_loop.simps)
  next
    case (Some t')
    show ?thesis
    proof (cases "dispatched_final r")
      case False
      then have "\<not> exits r" by (simp add: exits_def)
      then show ?thesis
        using Some False Cons.IH [of n "int (length t')" "Some t'"]
        by (auto simp add: loop_interim seen_Cons simp del: response_loop.simps)
    next
      case True
      show ?thesis
      proof (cases "snd (send_text_to_backend (net n) t')")
        case raised: (Some e)
        then have "e = UnicodeDecodeError"
          using relay_raises_decode_only [of "net n" t'] by simp
        then show ?thesis
          using Some True raised by (auto simp add: loop_final simp del: response_loop.simps)
      next
        case ok: None
        show ?thesis
        proof (cases "exit_phrase t'")
          case ex: True
          then have "exits r" using True Some by (simp add: exits_def)
          then show ?thesis
            using Some True ex ok
            by (auto simp add: loop_final seen_Cons seen_Nil simp del: response_loop.simps)
        next
          case nex: False
          then have "\<not> exits r" using Some by (simp add: exits_def)
          then show ?thesis
            using Some True nex ok Cons.IH [of "Suc n" 0 "Some t'"]
            by (auto simp add: loop_final seen_Cons simp del: response_loop.simps)
        qed
      qed
    qed
  qed
qed

text \<open>
  The two conditions of the statement that follows are needed: without a transcript read
  the loop raises \<open>UnboundLocalError\<close> (see C10), and bytes of the backend's answer
  that are not UTF-8 make \<open>decode\<close> raise inside the relay, past its handler and out
  of the loop.
\<close>

lemma relay_decode_error_leaves_loop:
  "listen_print_loop backend_garbled [Response [Result [Alternative ''hi''] True]]
     = ([Stdout_write (''hi'' @ LF), Stdout_flush, Print ''Sending text to backend:  hi'',
         Http_post api_url headers [(''Question'', ''hi'')]], Inl UnicodeDecodeError)"
  by (simp add: listen_print_loop_def backend_garbled_def send_text_to_backend_def
      try_send_def str_mul_def Let_def)

text \<open>
  C2, as the code has it. For every sequence of responses the loop returns the last
  transcript that it has read: the last one of the responses consumed, up to the first
  final response with the stop phrase, whether that result was interim or final. This
  holds whenever the loop has read a transcript and no relay call raises past its
  handler; the only other outcomes are the \<open>UnboundLocalError\<close> of a loop that has
  read none and the \<open>UnicodeDecodeError\<close> of the relay. In particular, when the loop
  handles no response as final and reads at least one transcript, it returns the last
  transcript read, an interim one.
\<close>

theorem loop_returns_last_seen:
  "((\<forall>n t. snd (send_text_to_backend (net n) t) = None) \<longrightarrow>
      snd (listen_print_loop net rs) =
        (if seen (consumed rs) = [] then Inl UnboundLocalError
         else Inr (last (seen (consumed rs)))))
   \<and> (snd (listen_print_loop net rs) = Inl UnicodeDecodeError
      \<or> snd (listen_print_loop net rs) =
        (if seen (consumed rs) = [] then Inl UnboundLocalError
         else Inr (last (seen (consumed rs)))))
   \<and> (snd (listen_print_loop net rs) = Inr t \<longrightarrow>
      seen (consumed rs) \<noteq> [] \<and> t = last (seen (consumed rs)))
   \<and> (filter dispatched_final rs = [] \<and> seen rs \<noteq> [] \<longrightarrow>
      snd (listen_print_loop net rs) = Inr (last (seen rs)))"
  using loop_total [of net 0 0 None rs] loop_result_cases [of net 0 0 None rs]
    loop_returns [of net 0 0 None rs t] loop_no_final [of rs net 0 0 None]
  by (auto simp: listen_print_loop_def split: if_splits)

theorem loop_returns_last_seen_witness:
  "(\<forall>n t. snd (send_text_to_backend (backend_says ''ok'' n) t) = None)
   \<and> consumed
      [Response [Result [Alternative ''hel''] False],
       Response [Result [Alternative ''hello''] True], Response [],
       Response [Result [Alternative ''please quit''] True],
       Response [Result [Alternative ''more''] True]]
     = [Response [Result [Alternative ''hel''] False],
        Response [Result [Alternative ''hello''] True], Response [],
        Response [Result [Alternative ''please quit''] True]]
   \<and> snd (listen_print_loop (backend_says ''ok'')
      [Response [Result [Alternative ''hel''] False],
       Response [Result [Alternative ''hello''] True], Response [],
       Response [Result [Alternative ''please quit''] True],
       Response [Result [Alternative ''more''] True]]) = Inr ''please quit''"
proof -
  let ?rs = "[Response [Result [Alternative ''hel''] False],
       Response [Result [Alternative ''hello''] True], Response [],
       Response [Result [Alternative ''please quit''] True],
       Response [Result [Alternative ''more''] True]]"
  have safe: "\<forall>n t. snd (send_text_to_backend (backend_says ''ok'' n) t) = None"
    by (simp add: backend_says_def send_text_to_backend_def try_send_def)
  have ex: "\<not> exit_phrase ''hel''" "\<not> exit_phrase ''hello''" "exit_phrase ''please quit''"
    by (simp_all add: exit_phrase_def exit_pattern_def literal_here_def at_boundary_def
        is_word_char_def ascii_lower_def char_of_eq_iff char_eq_char_of)
  have c: "consumed ?rs
     = [Response [Result [Alternative ''hel''] False],
        Response [Result [Alternative ''hello''] True], Response [],
        Response [Result [Alternative ''please quit''] True]]"
    using ex by (simp add: exits_def dispatched_final_def read_transcript_def)
  have "seen (consumed ?rs) = [''hel'', ''hello'', ''please quit'']"
    unfolding c by (simp add: seen_def map_filter_simps read_transcript_def)
  then have "snd (listen_print_loop (backend_says ''ok'') ?rs) = Inr ''please quit''"
    using loop_returns_last_seen [of "backend_says ''ok''" ?rs "''please quit''"] safe
    by simp
  then show ?thesis using safe c by blast
qed

text \<open>
  The claim C2 as it is written fails for a sequence without any final result: the loop
  returns the transcript of the last interim result.
\<close>

theorem interim_only_returns_transcript:
  "filter is_final (all_results [Response [Result [Alternative ''hello''] False]]) = []
   \<and> listen_print_loop (backend_says ''ok'') [Response [Result [Alternative ''hello''] False]]
      = ([Stdout_write (''hello'' @ CR), Stdout_flush], Inr ''hello'')"
  by (simp add: all_results_def listen_print_loop_def str_mul_def)

section \<open>Properties of the stop phrase\<close>

lemma word_char_lower:
  assumes "is_word_char (ascii_lower c)"
  shows "is_word_char c"
proof (cases "65 \<le> (of_char c :: nat) \<and> (of_char c :: nat) \<le> 90")
  case True
  then show ?thesis by (simp add: is_word_char_def Let_def)
next
  case False
  then have "ascii_lower c = c" unfolding ascii_lower_def Let_def by (simp only: if_False)
  then show ?thesis using assms by simp
qed

lemma stop_word_chars:
  assumes "stop_word w"
  shows "length w = 4" and "\<forall>c \<in> set w. is_word_char c"
proof -
  from assms have "length (map ascii_lower w) = 4"
    unfolding stop_word_def by auto
  then show "length w = 4" by simp
  have "\<forall>c \<in> set (map ascii_lower w). is_word_char c"
    using assms unfolding stop_word_def by (auto simp: is_word_char_def)
  then show "\<forall>c \<in> set w. is_word_char c"
    using word_char_lower by auto
qed

lemma runs_hd: "runs s \<noteq> [] \<and> hd (runs s) = takeWhile is_word_char s"
  by (induction s) (auto split: list.splits)

lemma literal_run:
  assumes "k = ''exit'' \<or> k = ''quit''"
  shows "(literal_here k right \<and> at_boundary (left @ take 4 right) (drop 4 right))
     \<longleftrightarrow> map ascii_lower (takeWhile is_word_char right) = k"
proof
  assume a: "literal_here k right \<and> at_boundary (left @ take 4 right) (drop 4 right)"
  have lk: "map ascii_lower k = k" "length k = 4"
    using assms by (auto simp: ascii_lower_def)
  from a have len: "4 \<le> length right" and low: "map ascii_lower (take 4 right) = k"
    using lk by (auto simp: literal_here_def)
  then have sw: "stop_word (take 4 right)"
    using assms by (auto simp: stop_word_def)
  have allw: "\<forall>c \<in> set (take 4 right). is_word_char c"
    using stop_word_chars(2) [OF sw] .
  have ne: "take 4 right \<noteq> []" using len by auto
  then have "is_word_char (last (take 4 right))"
    using allw last_in_set by blast
  then have "\<not> (drop 4 right \<noteq> [] \<and> is_word_char (hd (drop 4 right)))"
    using a ne by (simp add: at_boundary_def)
  then have "takeWhile is_word_char (drop 4 right) = []"
    by (cases "drop 4 right") auto
  moreover have "takeWhile is_word_char (take 4 right @ drop 4 right)
      = take 4 right @ takeWhile is_word_char (drop 4 right)"
    using allw by (intro takeWhile_append2) blast
  ultimately have "takeWhile is_word_char right = take 4 right"
    by simp
  then show "map ascii_lower (takeWhile is_word_char right) = k"
    using low by simp
next
  assume b: "map ascii_lower (takeWhile is_word_char right) = k"
  let ?w = "takeWhile is_word_char right"
  have lk: "map ascii_lower k = k" "length k = 4"
    using assms by (auto simp: ascii_lower_def)
  have lw: "length ?w = 4" using b lk(2) by (metis length_map)
  have split: "right = ?w @ dropWhile is_word_char right" by simp
  have tk: "take 4 right = ?w"
    using lw split by (metis append_eq_conv_conj)
  have dr: "drop 4 right = dropWhile is_word_char right"
    using lw split by (metis append_eq_conv_conj)
  have ne: "?w \<noteq> []" using lw by auto
  have "is_word_char (last ?w)"
    using ne by (meson last_in_set set_takeWhileD)
  moreover have "\<not> (dropWhile is_word_char right \<noteq> [] \<and> is_word_char (hd (dropWhile is_word_char right)))"
    using hd_dropWhile by blast
  ultimately have "at_boundary (left @ take 4 right) (drop 4 right)"
    using ne by (simp add: at_boundary_def tk dr)
  moreover have "literal_here k right"
  proof -
    have "length (take 4 right) = 4" using tk lw by simp
    then have "4 \<le> length right" by simp
    then show ?thesis using b lk tk by (simp add: literal_here_def)
  qed
  ultimately show "literal_here k right \<and> at_boundary (left @ take 4 right) (drop 4 right)"
    by simp
qed

lemma match_exit_pattern:
  "match_atoms exit_pattern left right
     \<longleftrightarrow> at_boundary left right \<and> stop_word (takeWhile is_word_char right)"
proof -
  have "match_atoms exit_pattern left right
     \<longleftrightarrow> at_boundary left right
        \<and> ((literal_here ''exit'' right \<and> at_boundary (left @ take 4 right) (drop 4 right))
          \<or> (literal_here ''quit'' right \<and> at_boundary (left @ take 4 right) (drop 4 right)))"
    by (simp add: exit_pattern_def eval_nat_numeral)
  then show ?thesis
    using literal_run [of "''exit''" right left] literal_run [of "''quit''" right left]
    by (simp add: stop_word_def)
qed

lemma in_map_or:
  "(\<exists>w \<in> set ws. f w = a \<or> f w = b) \<longleftrightarrow> (a \<in> set (map f ws) \<or> b \<in> set (map f ws))"
  by auto

lemma stop_word_Nil: "\<not> stop_word []"
  by (simp add: stop_word_def)

lemma search_runs:
  "search_from exit_pattern left right \<longleftrightarrow>
     (\<exists>w \<in> set (if left \<noteq> [] \<and> is_word_char (last left) then tl (runs right) else runs right).
        stop_word w)"
proof (induction right arbitrary: left)
  case Nil
  show ?case
    by (simp add: match_exit_pattern stop_word_Nil)
next
  case (Cons c cs)
  obtain w ws where rs: "runs cs = w # ws" and w: "w = takeWhile is_word_char cs"
    using runs_hd [of cs] by (cases "runs cs") auto
  show ?case
  proof (cases "is_word_char c")
    case True
    have IH: "search_from exit_pattern (left @ [c]) cs \<longleftrightarrow> (\<exists>x \<in> set ws. stop_word x)"
      using Cons.IH [of "left @ [c]"] True rs by simp
    show ?thesis
    proof (cases "left \<noteq> [] \<and> is_word_char (last left)")
      case inword: True
      then have "\<not> at_boundary left (c # cs)"
        using True by (simp add: at_boundary_def)
      then show ?thesis
        using IH inword True rs by (simp add: match_exit_pattern)
    next
      case outside: False
      then have "at_boundary left (c # cs)"
        using True by (auto simp: at_boundary_def)
      then show ?thesis
        using IH outside True rs w by (auto simp: match_exit_pattern)
    qed
  next
    case False
    have IH: "search_from exit_pattern (left @ [c]) cs \<longleftrightarrow> (\<exists>x \<in> set (runs cs). stop_word x)"
      using Cons.IH [of "left @ [c]"] False by simp
    have "\<not> stop_word (takeWhile is_word_char (c # cs))"
      using False by (simp add: stop_word_Nil)
    then show ?thesis
      using IH False by (auto simp: match_exit_pattern stop_word_Nil)
  qed
qed

lemma exit_phrase_runs:
  "exit_phrase t \<longleftrightarrow> spec_contains_stop_word t"
proof -
  have "exit_phrase t \<longleftrightarrow> (\<exists>w \<in> set (runs t). stop_word w)"
    using search_runs [of "[]" t] by (simp add: exit_phrase_def)
  also have "\<dots> \<longleftrightarrow> (\<exists>w \<in> set (spec_whole_words t). stop_word w)"
    using stop_word_Nil by (auto simp: spec_whole_words_def)
  also have "\<dots> \<longleftrightarrow> spec_contains_stop_word t"
    unfolding spec_contains_stop_word_def stop_word_def by (rule in_map_or)
  finally show ?thesis .
qed

text \<open>The matcher itself, run on the examples.\<close>

lemma exit_phrase_matcher_examples:
  "exit_phrase ''please exit now'' \<and> exit_phrase ''QUIT'' \<and> \<not> exit_phrase ''exiting''
   \<and> \<not> exit_phrase (''exit'' @ [CHR 0xE9]) \<and> exit_phrase (''exit'' @ [CHR 0xD7])"
  by (simp add: exit_phrase_def exit_pattern_def literal_here_def at_boundary_def
      is_word_char_def ascii_lower_def char_of_eq_iff char_eq_char_of)

text \<open>
  C5: the stop-phrase check of the loop matches a transcript exactly when one of the
  whole words of the transcript is exit or quit, in any case. It matches
  \<open>please exit now\<close> and \<open>QUIT\<close>, and it does not match \<open>exiting\<close>. A letter
  of Latin-1 is part of a word as well: the check does not match exit followed by the
  letter of code point 233, and it matches exit followed by the sign of code point 215.
\<close>

theorem exit_phrase_whole_word:
  "exit_phrase t = spec_contains_stop_word t
   \<and> exit_phrase ''please exit now'' \<and> exit_phrase ''QUIT'' \<and> \<not> exit_phrase ''exiting''
   \<and> \<not> exit_phrase (''exit'' @ [CHR 0xE9]) \<and> exit_phrase (''exit'' @ [CHR 0xD7])"
  by (simp add: exit_phrase_runs)
    (simp add: spec_contains_stop_word_def spec_whole_words_def is_word_char_def ascii_lower_def
      char_of_eq_iff char_eq_char_of)

theorem exit_phrase_whole_word_witness:
  "exit_phrase ''I quit.'' = spec_contains_stop_word ''I quit.''
   \<and> spec_whole_words ''I quit.'' = [''I'', ''quit'']
   \<and> exit_phrase ''I quit.''"
  using exit_phrase_whole_word [of "''I quit.''"]
  by (simp add: spec_contains_stop_word_def spec_whole_words_def is_word_char_def ascii_lower_def
      char_of_eq_iff char_eq_char_of)

section \<open>Properties of the session driver\<close>

lemma loop_breaks_on_exit:
  assumes "filter exits pre = []" and "exits r"
    and "\<forall>n t. snd (send_text_to_backend (net n) t) = None"
  shows "\<exists>es t. response_loop net n L b (pre @ r # rest) = (es @ [Print ''Exiting..''], Inr t)
      \<and> read_transcript r = Some t"
  using assms(1)
proof (induction pre arbitrary: n L b)
  case Nil
  obtain t where t: "read_transcript r = Some t" "dispatched_final r" "exit_phrase t"
    using assms(2) by (auto simp: exits_def split: option.splits)
  have "response_loop net n L b (r # rest) =
      ((Stdout_write (t @ str_mul '' '' (L - int (length t)) @ LF) # Stdout_flush
          # fst (send_text_to_backend (net n) t)) @ [Print ''Exiting..''], Inr t)"
    using t assms(3) by (simp add: loop_final del: response_loop.simps)
  then show ?case using t(1) by (metis append_Nil)
next
  case (Cons p pre)
  then have np: "\<not> exits p" and q: "filter exits pre = []"
    by (auto split: if_splits)
  have IH: "\<exists>es t. response_loop net n' L' b' (pre @ r # rest) = (es @ [Print ''Exiting..''], Inr t)
      \<and> read_transcript r = Some t" for n' L' b'
    using Cons.IH [OF q] .
  show ?case
  proof (cases "read_transcript p")
    case None
    then show ?thesis
      using IH [of n L b] by (simp add: loop_skip del: response_loop.simps)
  next
    case (Some t')
    show ?thesis
    proof (cases "dispatched_final p")
      case False
      obtain es t where "response_loop net n (int (length t')) (Some t') (pre @ r # rest)
          = (es @ [Print ''Exiting..''], Inr t)" "read_transcript r = Some t"
        using IH by blast
      then have "response_loop net n L b ((p # pre) @ r # rest)
          = ((Stdout_write (t' @ str_mul '' '' (L - int (length t')) @ CR) # Stdout_flush # es)
              @ [Print ''Exiting..''], Inr t) \<and> read_transcript r = Some t"
        using Some False by (simp add: loop_interim del: response_loop.simps)
      then show ?thesis by blast
    next
      case True
      then have nex: "\<not> exit_phrase t'"
        using np Some by (simp add: exits_def)
      obtain es t where "response_loop net (Suc n) 0 (Some t') (pre @ r # rest)
          = (es @ [Print ''Exiting..''], Inr t)" "read_transcript r = Some t"
        using IH by blast
      then have "response_loop net n L b ((p # pre) @ r # rest)
          = ((Stdout_write (t' @ str_mul '' '' (L - int (length t')) @ LF) # Stdout_flush
               # fst (send_text_to_backend (net n) t') @ es)
              @ [Print ''Exiting..''], Inr t) \<and> read_transcript r = Some t"
        using Some True nex assms(3) by (simp add: loop_final del: response_loop.simps)
      then show ?thesis by blast
    qed
  qed
qed

lemma main_opens: "\<exists>es. fst (main (Suc fuel) io k) = Mic_open # es"
  by (auto split: prod.splits sum.splits)

text \<open>
  C9: when a session meets a final transcript with the stop phrase (the first one in its
  responses, the relay returning normally), \<open>listen_print_loop\<close> ends there with the
  exit notice and returns normally; \<open>main\<close> then closes the stream and goes on with
  the next iteration, which opens a new session. The result of \<open>main\<close> is the result
  of the iterations that follow: the stop phrase never ends the process.
\<close>

theorem exit_phrase_restarts_session:
  assumes "fst (io k) = pre @ r # rest"
    and "filter exits pre = []" and "exits r"
    and "\<forall>n t. snd (send_text_to_backend (snd (io k) n) t) = None"
  shows "\<exists>es t es'. read_transcript r = Some t
    \<and> listen_print_loop (snd (io k)) (fst (io k)) = (es @ [Print ''Exiting..''], Inr t)
    \<and> main (Suc fuel) io k
        = (Mic_open # es @ Print ''Exiting..'' # Mic_close # fst (main fuel io (Suc k)),
           snd (main fuel io (Suc k)))
    \<and> fst (main (Suc fuel) io (Suc k)) = Mic_open # es'"
proof -
  obtain es t where l: "listen_print_loop (snd (io k)) (fst (io k)) = (es @ [Print ''Exiting..''], Inr t)"
    and t: "read_transcript r = Some t"
    using loop_breaks_on_exit [OF assms(2,3,4), of 0 0 None rest] assms(1)
    by (auto simp: listen_print_loop_def)
  have "main (Suc fuel) io k
        = (Mic_open # es @ Print ''Exiting..'' # Mic_close # fst (main fuel io (Suc k)),
           snd (main fuel io (Suc k)))"
    using l by (simp split: prod.splits)
  then show ?thesis using l t main_opens [of fuel io "Suc k"] by blast
qed

theorem exit_phrase_restarts_session_witness:
  "exits (Response [Result [Alternative ''exit''] True])
   \<and> (\<exists>es t es'.
        read_transcript (Response [Result [Alternative ''exit''] True]) = Some t
      \<and> listen_print_loop
          (snd (same_session [Response [Result [Alternative ''exit''] True]]
             (backend_down ''refused'') 0))
          (fst (same_session [Response [Result [Alternative ''exit''] True]]
             (backend_down ''refused'') 0))
        = (es @ [Print ''Exiting..''], Inr t)
      \<and> main (Suc (Suc 0))
          (same_session [Response [Result [Alternative ''exit''] True]]
             (backend_down ''refused'')) 0
        = (Mic_open # es @ Print ''Exiting..'' # Mic_close
             # fst (main (Suc 0)
                 (same_session [Response [Result [Alternative ''exit''] True]]
                    (backend_down ''refused'')) (Suc 0)),
           snd (main (Suc 0)
                 (same_session [Response [Result [Alternative ''exit''] True]]
                    (backend_down ''refused'')) (Suc 0)))
      \<and> fst (main (Suc (Suc 0))
          (same_session [Response [Result [Alternative ''exit''] True]]
             (backend_down ''refused'')) (Suc 0)) = Mic_open # es')
   \<and> main (Suc (Suc 0))
        (same_session [Response [Result [Alternative ''exit''] True]] (backend_down ''refused''))
        0
      = ([Mic_open, Stdout_write (''exit'' @ LF), Stdout_flush,
          Print ''Sending text to backend:  exit'',
          Http_post api_url headers [(''Question'', ''exit'')],
          Print ''Error sending request to backend: refused'',
          Print ''Exiting..'', Mic_close,
          Mic_open, Stdout_write (''exit'' @ LF), Stdout_flush,
          Print ''Sending text to backend:  exit'',
          Http_post api_url headers [(''Question'', ''exit'')],
          Print ''Error sending request to backend: refused'',
          Print ''Exiting..'', Mic_close], None)"
proof -
  let ?r = "Response [Result [Alternative ''exit''] True]"
  let ?io = "same_session [?r] (backend_down ''refused'')"
  have ex: "exit_phrase ''exit''"
    by (simp add: exit_phrase_def exit_pattern_def literal_here_def at_boundary_def
        is_word_char_def ascii_lower_def)
  have a: "fst (?io 0) = [] @ ?r # []"
    by (simp add: same_session_def)
  have b: "filter exits [] = []"
    by simp
  have c: "exits ?r"
    using ex by (simp add: exits_def dispatched_final_def read_transcript_def)
  have d: "\<forall>n t. snd (send_text_to_backend (snd (?io 0) n) t) = None"
    by (simp add: same_session_def backend_down_def send_text_to_backend_def try_send_def)
  have run: "main (Suc (Suc 0)) ?io 0
      = ([Mic_open, Stdout_write (''exit'' @ LF), Stdout_flush,
          Print ''Sending text to backend:  exit'',
          Http_post api_url headers [(''Question'', ''exit'')],
          Print ''Error sending request to backend: refused'',
          Print ''Exiting..'', Mic_close,
          Mic_open, Stdout_write (''exit'' @ LF), Stdout_flush,
          Print ''Sending text to backend:  exit'',
          Http_post api_url headers [(''Question'', ''exit'')],
          Print ''Error sending request to backend: refused'',
          Print ''Exiting..'', Mic_close], None)"
    using ex
    by (simp add: same_session_def backend_down_def listen_print_loop_def
        send_text_to_backend_def try_send_def str_mul_def Let_def)
  from exit_phrase_restarts_session [where io = ?io and k = 0 and pre = "[]" and r = ?r
      and rest = "[]" and fuel = "Suc 0", OF a b c d] c run
  show ?thesis by blast
qed

end
